theory Spec2Isabelle
  imports Complex_Main "HOL-Library.Sublist" "HOL-Library.AList"
begin

section \<open>Bytes, text and the Python primitives the server relies on\<close>

text \<open>
  A Python \<open>bytes\<close> value is a list of 8-bit characters. A Python \<open>str\<close> is represented
  by its UTF-8 encoding, so \<open>.encode()\<close> is the identity on the representation,
  \<open>.decode()\<close> is UTF-8 validation (it raises on anything else), and \<open>len\<close> of a
  \<open>str\<close> counts code points, that is, the bytes that are not continuation bytes.
  Case mapping, whitespace and digits are those of ASCII; code points above 0x7F are
  taken to be caseless, non-blank and non-numeric.
\<close>

type_synonym bytes = "char list"
type_synonym pystr = "char list"

datatype exn = UnicodeDecodeError | RuntimeError | OverflowError | KeyError

definition CR :: char where
  "CR = CHR 0x0D"

definition LF :: char where
  "LF = CHR 0x0A"

definition CRLF :: bytes where
  "CRLF = [CR, LF]"

subsection \<open>Slicing and searching, with Python's index rules\<close>

text \<open>
  \<open>adjust n i\<close> is the position an index \<open>i\<close> of a slice denotes in a sequence of
  length \<open>n\<close>: a negative index counts from the end, and the result is clamped to
  \<open>0..n\<close>.
\<close>

definition adjust :: "nat \<Rightarrow> int \<Rightarrow> nat" where
  "adjust n i = (if i < 0 then nat (i + int n) else min n (nat i))"

definition slice :: "'a list \<Rightarrow> int \<Rightarrow> int \<Rightarrow> 'a list" where
  "slice xs i j =
     (let a = adjust (length xs) i; b = adjust (length xs) j
      in take (b - a) (drop a xs))"

definition slice_from :: "'a list \<Rightarrow> int \<Rightarrow> 'a list" where
  "slice_from xs i = drop (adjust (length xs) i) xs"

definition slice_to :: "'a list \<Rightarrow> int \<Rightarrow> 'a list" where
  "slice_to xs j = take (adjust (length xs) j) xs"

text \<open>\<open>find_from xs i\<close>: index of the first \<open>\r\n\<close> in \<open>xs\<close>, counted from \<open>i\<close>; -1 if none.\<close>

fun find_from :: "bytes \<Rightarrow> nat \<Rightarrow> int" where
  "find_from (a # b # xs) i =
     (if a = CR \<and> b = LF then int i else find_from (b # xs) (Suc i))"
| "find_from _ i = - 1"

text \<open>\<open>buffer.find(b"\r\n", start)\<close>\<close>

definition find_crlf :: "bytes \<Rightarrow> int \<Rightarrow> int" where
  "find_crlf buf start =
     (let s = adjust (length buf) start in find_from (drop s buf) s)"

subsection \<open>Integers from and to decimal text\<close>

definition is_digit :: "char \<Rightarrow> bool" where
  "is_digit c = (48 \<le> (of_char c :: nat) \<and> (of_char c :: nat) \<le> 57)"

definition digit_val :: "char \<Rightarrow> nat" where
  "digit_val c = of_char c - 48"

definition digit_char :: "nat \<Rightarrow> char" where
  "digit_char d = char_of (48 + d)"

text \<open>
  The digits after the first one: a single underscore is allowed between two digits.
\<close>

fun digits_value :: "nat \<Rightarrow> char list \<Rightarrow> nat option" where
  "digits_value acc [] = Some acc"
| "digits_value acc (c # cs) =
     (if is_digit c then digits_value (10 * acc + digit_val c) cs
      else if c = CHR ''_'' then
        (case cs of
           [] \<Rightarrow> None
         | d # ds \<Rightarrow> if is_digit d then digits_value (10 * acc + digit_val d) ds else None)
      else None)"

definition parse_digits :: "char list \<Rightarrow> nat option" where
  "parse_digits s =
     (case s of
        [] \<Rightarrow> None
      | c # cs \<Rightarrow> if is_digit c then digits_value (digit_val c) cs else None)"

definition strip :: "(char \<Rightarrow> bool) \<Rightarrow> char list \<Rightarrow> char list" where
  "strip ws s = rev (dropWhile ws (rev (dropWhile ws s)))"

text \<open>
  \<open>int(x)\<close> in base 10: surrounding blanks are dropped, one sign is allowed, then
  digits. \<open>None\<close> stands for \<open>ValueError\<close>. The cap that recent interpreters put on
  the number of digits (4300 by default) is a runtime setting and is not part of the
  model.
\<close>

definition py_int :: "(char \<Rightarrow> bool) \<Rightarrow> char list \<Rightarrow> int option" where
  "py_int ws s =
     (case strip ws s of
        [] \<Rightarrow> None
      | c # cs \<Rightarrow>
          if c = CHR ''-'' then map_option (\<lambda>n. - int n) (parse_digits cs)
          else if c = CHR ''+'' then map_option int (parse_digits cs)
          else map_option int (parse_digits (c # cs)))"

text \<open>Blanks for \<open>int(bytes)\<close>: space, \<open>\t \n \v \f \r\<close>.\<close>

definition bytes_space :: "char \<Rightarrow> bool" where
  "bytes_space c = ((of_char c :: nat) = 32 \<or> (9 \<le> (of_char c :: nat) \<and> (of_char c :: nat) \<le> 13))"

text \<open>Blanks for \<open>str.split()\<close>: the above and 0x1C..0x1F.\<close>

definition str_space :: "char \<Rightarrow> bool" where
  "str_space c = (bytes_space c \<or> (28 \<le> (of_char c :: nat) \<and> (of_char c :: nat) \<le> 31))"

definition int_of_bytes :: "bytes \<Rightarrow> int option" where
  "int_of_bytes = py_int bytes_space"

text \<open>On ASCII text \<open>int(str)\<close> reads what \<open>int(bytes)\<close> reads, with the same blanks.\<close>

definition int_of_str :: "pystr \<Rightarrow> int option" where
  "int_of_str = py_int bytes_space"

text \<open>\<open>str(n)\<close> as an f-string renders it.\<close>

fun str_nat :: "nat \<Rightarrow> string" where
  "str_nat n = (if n < 10 then [digit_char n] else str_nat (n div 10) @ [digit_char (n mod 10)])"

definition str_int :: "int \<Rightarrow> string" where
  "str_int i = (if i < 0 then CHR ''-'' # str_nat (nat (- i)) else str_nat (nat i))"

subsection \<open>UTF-8\<close>

definition cont :: "nat \<Rightarrow> bool" where
  "cont b = (0x80 \<le> b \<and> b \<le> 0xBF)"

text \<open>Well-formed UTF-8 byte sequences (no overlong forms, no surrogates, at most U+10FFFF).\<close>

fun utf8_ok :: "nat list \<Rightarrow> bool" where
  "utf8_ok [] = True"
| "utf8_ok (a # bs) =
     (if a \<le> 0x7F then utf8_ok bs
      else if 0xC2 \<le> a \<and> a \<le> 0xDF then
        (case bs of
           b # r \<Rightarrow> cont b \<and> utf8_ok r
         | _ \<Rightarrow> False)
      else if 0xE0 \<le> a \<and> a \<le> 0xEF then
        (case bs of
           b # c # r \<Rightarrow>
             (if a = 0xE0 then 0xA0 \<le> b \<and> b \<le> 0xBF
              else if a = 0xED then 0x80 \<le> b \<and> b \<le> 0x9F
              else cont b) \<and> cont c \<and> utf8_ok r
         | _ \<Rightarrow> False)
      else if 0xF0 \<le> a \<and> a \<le> 0xF4 then
        (case bs of
           b # c # d # r \<Rightarrow>
             (if a = 0xF0 then 0x90 \<le> b \<and> b \<le> 0xBF
              else if a = 0xF4 then 0x80 \<le> b \<and> b \<le> 0x8F
              else cont b) \<and> cont c \<and> cont d \<and> utf8_ok r
         | _ \<Rightarrow> False)
      else False)"

definition utf8_valid :: "bytes \<Rightarrow> bool" where
  "utf8_valid bs = utf8_ok (map of_char bs)"

text \<open>\<open>bytes.decode()\<close>\<close>

definition decode :: "bytes \<Rightarrow> exn + pystr" where
  "decode bs = (if utf8_valid bs then Inr bs else Inl UnicodeDecodeError)"

text \<open>\<open>len(s)\<close> of a \<open>str\<close>: its number of code points.\<close>

definition py_len :: "pystr \<Rightarrow> nat" where
  "py_len s = length (filter (\<lambda>c. \<not> cont (of_char c)) s)"

definition ascii :: "char list \<Rightarrow> bool" where
  "ascii s = (\<forall>c \<in> set s. (of_char c :: nat) < 128)"

definition upper_char :: "char \<Rightarrow> char" where
  "upper_char c =
     (if 97 \<le> (of_char c :: nat) \<and> (of_char c :: nat) \<le> 122 then char_of (of_char c - 32 :: nat) else c)"

text \<open>\<open>s.upper()\<close>\<close>

definition upper :: "pystr \<Rightarrow> pystr" where
  "upper s = map upper_char s"

text \<open>\<open>s.split()\<close>: the maximal runs of non-blank characters.\<close>

fun split_ws :: "pystr \<Rightarrow> pystr \<Rightarrow> pystr list" where
  "split_ws cur [] = (if cur = [] then [] else [cur])"
| "split_ws cur (c # cs) =
     (if str_space c then (if cur = [] then split_ws [] cs else cur # split_ws [] cs)
      else split_ws (cur @ [c]) cs)"

definition split :: "pystr \<Rightarrow> pystr list" where
  "split s = split_ws [] s"

section \<open>The streaming decoder (class RESPParser)\<close>

text \<open>
  The decoder's state is its buffer. Every method returns its result together with the
  buffer it leaves; a result \<open>Inl e\<close> is the exception \<open>e\<close> escaping the method, \<open>Inr None\<close>
  is Python's \<open>None\<close> (no command yet).
\<close>

definition feed :: "bytes \<Rightarrow> bytes \<Rightarrow> bytes" where
  "feed buffer data = buffer @ data"

definition parse_bulk_string_at :: "bytes \<Rightarrow> int \<Rightarrow> exn + (pystr \<times> int) option" where
  "parse_bulk_string_at buffer start =
     (if start \<ge> int (length buffer) \<or> slice buffer start (start + 1) \<noteq> ''$'' then Inr None
      else
        let endp = find_crlf buffer start in
        if endp = - 1 then Inr None
        else
          case int_of_bytes (slice buffer (start + 1) endp) of
            None \<Rightarrow> Inr None
          | Some len \<Rightarrow>
              (let data_start = endp + 2; data_end = data_start + len in
               if int (length buffer) < data_end + 2 then Inr None
               else
                 (case decode (slice buffer data_start data_end) of
                    Inl e \<Rightarrow> Inl e
                  | Inr s \<Rightarrow> Inr (Some (s, data_end + 2)))))"

text \<open>The \<open>for _ in range(count)\<close> loop of \<open>_parse_array\<close>, with \<open>n\<close> rounds to go.\<close>

fun parse_elems :: "bytes \<Rightarrow> nat \<Rightarrow> int \<Rightarrow> pystr list \<Rightarrow> exn + (pystr list \<times> int) option" where
  "parse_elems buffer 0 pos args = Inr (Some (args, pos))"
| "parse_elems buffer (Suc n) pos args =
     (case parse_bulk_string_at buffer pos of
        Inl e \<Rightarrow> Inl e
      | Inr None \<Rightarrow> Inr None
      | Inr (Some (v, new_pos)) \<Rightarrow> parse_elems buffer n new_pos (args @ [v]))"

definition parse_array :: "bytes \<Rightarrow> (exn + pystr list option) \<times> bytes" where
  "parse_array buffer =
     (let endp = find_crlf buffer 0 in
      if endp = - 1 then (Inr None, buffer)
      else
        case int_of_bytes (slice buffer 1 endp) of
          None \<Rightarrow> (Inr None, slice_from buffer 1)
        | Some count \<Rightarrow>
            (case parse_elems buffer (nat count) (endp + 2) [] of
               Inl e \<Rightarrow> (Inl e, buffer)
             | Inr None \<Rightarrow> (Inr None, buffer)
             | Inr (Some (args, pos)) \<Rightarrow> (Inr (Some args), slice_from buffer pos)))"

definition parse_inline :: "bytes \<Rightarrow> (exn + pystr list option) \<times> bytes" where
  "parse_inline buffer =
     (let endp = find_crlf buffer 0 in
      if endp = - 1 then (Inr None, buffer)
      else
        case decode (slice_to buffer endp) of
          Inl e \<Rightarrow> (Inl e, buffer)
        | Inr line \<Rightarrow> (Inr (Some (split line)), slice_from buffer (endp + 2)))"

definition get_command :: "bytes \<Rightarrow> (exn + pystr list option) \<times> bytes" where
  "get_command buffer =
     (if buffer = [] then (Inr None, buffer)
      else if slice buffer 0 1 = ''*'' then parse_array buffer
      else parse_inline buffer)"

text \<open>
  The inner loop of \<open>handle_client\<close>: commands are taken from the buffer until
  \<open>get_command\<close> returns \<open>None\<close> or raises. The result lists the commands taken, the
  exception that ended the loop (if any) and the buffer left. The loop has no bound in
  the source, so not returning is the value \<open>None\<close>.
\<close>

partial_function (option) drain :: "bytes \<Rightarrow> (pystr list list \<times> exn option \<times> bytes) option" where
  "drain buffer =
     (case get_command buffer of
        (Inl e, b) \<Rightarrow> Some ([], Some e, b)
      | (Inr None, b) \<Rightarrow> Some ([], None, b)
      | (Inr (Some command), b) \<Rightarrow>
          Option.bind (drain b) (\<lambda>(cs, x, b'). Some (command # cs, x, b')))"

declare drain.simps [code]

text \<open>Successive \<open>feed\<close> calls, each followed by the draining loop.\<close>

fun feed_chunks :: "bytes \<Rightarrow> bytes list \<Rightarrow> (pystr list list \<times> exn option \<times> bytes) option" where
  "feed_chunks buffer [] = Some ([], None, buffer)"
| "feed_chunks buffer (chunk # chunks) =
     (case drain (feed buffer chunk) of
        None \<Rightarrow> None
      | Some (cs, Some e, b) \<Rightarrow> Some (cs, Some e, b)
      | Some (cs, None, b) \<Rightarrow>
          (case feed_chunks b chunks of
             None \<Rightarrow> None
           | Some (cs', x, b') \<Rightarrow> Some (cs @ cs', x, b')))"

section \<open>Requests on the wire\<close>

text \<open>
  The array form of a request: \<open>*<n>\r\n\<close>, then \<open>n\<close> elements \<open>$<len>\r\n<bytes>\<close>
  each followed by two bytes, \<open>\r\n\<close> in a well-formed request; \<open>len\<close> is the number
  of payload bytes.
\<close>

definition bulk_frame :: "bytes \<Rightarrow> bytes \<Rightarrow> bytes" where
  "bulk_frame payload term = ''$'' @ str_nat (length payload) @ CRLF @ payload @ term"

definition array_frame_with :: "(bytes \<times> bytes) list \<Rightarrow> bytes" where
  "array_frame_with elems =
     ''*'' @ str_nat (length elems) @ CRLF @ concat (map (\<lambda>(p, t). bulk_frame p t) elems)"

definition array_frame :: "bytes list \<Rightarrow> bytes" where
  "array_frame payloads = array_frame_with (map (\<lambda>p. (p, CRLF)) payloads)"

text \<open>\<open>send\<close> of client.py: the bytes passed to \<open>sendall\<close>.\<close>

definition send :: "pystr list \<Rightarrow> bytes" where
  "send args =
     ''*'' @ str_nat (length args) @ CRLF
       @ concat (map (\<lambda>arg. ''$'' @ str_nat (py_len arg) @ CRLF @ arg @ CRLF) args)"

section \<open>Replies\<close>

definition simple_string :: "pystr \<Rightarrow> bytes" where
  "simple_string msg = ''+'' @ msg @ CRLF"

definition error :: "pystr \<Rightarrow> bytes" where
  "error msg = ''-'' @ msg @ CRLF"

definition bulk_string :: "pystr option \<Rightarrow> bytes" where
  "bulk_string val =
     (case val of
        None \<Rightarrow> ''$-1'' @ CRLF
      | Some v \<Rightarrow> ''$'' @ str_nat (py_len v) @ CRLF @ v @ CRLF)"

definition integer :: "int \<Rightarrow> bytes" where
  "integer val = '':'' @ str_int val @ CRLF"

text \<open>The reply the \<open>KEYS\<close> branch builds from the list of keys.\<close>

definition keys_reply :: "pystr list \<Rightarrow> bytes" where
  "keys_reply keys =
     ''*'' @ str_nat (length keys) @ CRLF
       @ concat (map (\<lambda>k. ''$'' @ str_nat (py_len k) @ CRLF @ k @ CRLF) keys)"

section \<open>The store and lazy expiry\<close>

text \<open>
  The dictionary \<open>data\<close> keeps insertion order, so it is an association list: assigning
  to a present key replaces its entry in place, assigning to a new key appends.
  A timestamp is the real number that a float of the source denotes, and every reading
  of the clock inside one command gives the same \<open>now\<close>.
\<close>

type_synonym entry = "pystr \<times> real option"
type_synonym store = "(pystr \<times> entry) list"

text \<open>
  The test \<open>expires_at and time.time() > expires_at\<close>: \<open>None\<close> and zero are both
  false as a condition.
\<close>

definition lapsed :: "real \<Rightarrow> real option \<Rightarrow> bool" where
  "lapsed now expires_at =
     (case expires_at of
        None \<Rightarrow> False
      | Some t \<Rightarrow> t \<noteq> 0 \<and> now > t)"

definition is_expired :: "real \<Rightarrow> pystr \<Rightarrow> store \<Rightarrow> bool \<times> store" where
  "is_expired now key data =
     (case map_of data key of
        None \<Rightarrow> (True, data)
      | Some (value, expires_at) \<Rightarrow>
          if lapsed now expires_at then (True, AList.delete key data) else (False, data))"

definition get_value :: "real \<Rightarrow> pystr \<Rightarrow> store \<Rightarrow> (exn + pystr option) \<times> store" where
  "get_value now key data =
     (case is_expired now key data of
        (True, d) \<Rightarrow> (Inr None, d)
      | (False, d) \<Rightarrow>
          (case map_of d key of
             None \<Rightarrow> (Inl KeyError, d)
           | Some (value, expires_at) \<Rightarrow> (Inr (Some value), d)))"

definition set_value :: "pystr \<Rightarrow> pystr \<Rightarrow> real option \<Rightarrow> store \<Rightarrow> store" where
  "set_value key value expires_at data = AList.update key (value, expires_at) data"

text \<open>
  Float arithmetic is exact arithmetic followed by rounding to the nearest double, ties
  to even: \<open>fl x\<close> is \<open>x\<close> rounded to 53 significant bits, or to a multiple of
  \<open>2^-1074\<close> below the normal range. A result of magnitude \<open>2^1024\<close> or more stands
  for an infinity.
\<close>

definition round_half_even :: "real \<Rightarrow> int" where
  "round_half_even x =
     (let f = \<lfloor>x\<rfloor>; d = x - of_int f in
      if d < 1 / 2 then f else if d > 1 / 2 then f + 1 else if even f then f else f + 1)"

definition fl :: "real \<Rightarrow> real" where
  "fl x =
     (if x = 0 then 0
      else
        let e = \<lfloor>log 2 \<bar>x\<bar>\<rfloor>; q = max e (- 1022) - 52
        in of_int (round_half_even (x / 2 powr of_int q)) * 2 powr of_int q)"

text \<open>
  \<open>int(x)\<close> of a float truncates towards zero and raises \<open>OverflowError\<close> on an
  infinity. Adding an \<open>int\<close> to a float converts the \<open>int\<close> first, which raises
  \<open>OverflowError\<close> from \<open>2^1024 - 2^970\<close> on.
\<close>

definition py_trunc :: "real \<Rightarrow> int" where
  "py_trunc x = (if x < 0 then \<lceil>x\<rceil> else \<lfloor>x\<rfloor>)"

definition int_of_float :: "real \<Rightarrow> exn + int" where
  "int_of_float x = (if \<bar>x\<bar> \<ge> 2 ^ 1024 then Inl OverflowError else Inr (py_trunc x))"

definition float_of_int :: "int \<Rightarrow> exn + real" where
  "float_of_int i =
     (if \<bar>i\<bar> \<ge> 2 ^ 1024 - 2 ^ 970 then Inl OverflowError else Inr (fl (of_int i)))"

section \<open>The dispatcher (handle_command)\<close>

definition apos :: string where
  "apos = [CHR 0x27]"

definition wrong_args :: "string \<Rightarrow> bytes" where
  "wrong_args name = error (''ERR wrong number of arguments for '' @ apos @ name @ apos)"

text \<open>
  The generator summed on the first line of the \<open>DEL\<close> branch: its condition pops
  every key it finds, and a popped entry, a pair, is never \<open>None\<close>.
\<close>

fun del_sum :: "store \<Rightarrow> pystr list \<Rightarrow> store \<times> nat" where
  "del_sum data [] = (data, 0)"
| "del_sum data (k # ks) =
     (if map_of data k \<noteq> None then
        (case del_sum (AList.delete k data) ks of (d, n) \<Rightarrow> (d, n + 1))
      else del_sum data ks)"

text \<open>The \<open>for key in args[1:]\<close> loop that follows, starting again from \<open>count = 0\<close>.\<close>

fun del_loop :: "store \<Rightarrow> pystr list \<Rightarrow> nat \<Rightarrow> store \<times> nat" where
  "del_loop data [] count = (data, count)"
| "del_loop data (key # keys) count =
     (if map_of data key \<noteq> None then del_loop (AList.delete key data) keys (count + 1)
      else del_loop data keys count)"

text \<open>
  The comprehension \<open>[k for k in data.keys() if not is_expired(k)]\<close>. The iterator
  over the keys raises \<open>RuntimeError\<close> when it is asked for its next key (or for the end)
  after the dictionary has changed size.
\<close>

fun keys_scan :: "real \<Rightarrow> pystr list \<Rightarrow> store \<Rightarrow> pystr list \<Rightarrow> store \<times> (exn + pystr list)" where
  "keys_scan now [] data keys = (data, Inr keys)"
| "keys_scan now (k # ks) data keys =
     (case is_expired now k data of
        (expired, d) \<Rightarrow>
          if length d \<noteq> length data then (d, Inl RuntimeError)
          else if expired then keys_scan now ks d keys
          else keys_scan now ks d (keys @ [k]))"

definition handle_command :: "real \<Rightarrow> store \<Rightarrow> pystr list \<Rightarrow> store \<times> (exn + bytes)" where
  "handle_command now data args =
     (case args of
        [] \<Rightarrow> (data, Inr (error ''ERR empty command''))
      | a0 # _ \<Rightarrow>
          let cmd = upper a0 in
          if cmd = ''PING'' then (data, Inr (simple_string ''PONG''))
          else if cmd = ''SET'' then
            (if length args < 3 then (data, Inr (wrong_args ''SET''))
             else (set_value (args ! 1) (args ! 2) None data, Inr (simple_string ''OK'')))
          else if cmd = ''GET'' then
            (if length args < 2 then (data, Inr (wrong_args ''GET''))
             else
               (case get_value now (args ! 1) data of
                  (Inl e, d) \<Rightarrow> (d, Inl e)
                | (Inr v, d) \<Rightarrow> (d, Inr (bulk_string v))))
          else if cmd = ''EXPIRE'' then
            (if length args < 3 then (data, Inr (wrong_args ''EXPIRE''))
             else
               (case int_of_str (args ! 2) of
                  None \<Rightarrow> (data, Inr (error ''ERR value is not an integer''))
                | Some seconds \<Rightarrow>
                    (let key = args ! 1 in
                     if map_of data key = None then (data, Inr (integer 0))
                     else
                       (case is_expired now key data of
                          (True, d) \<Rightarrow> (d, Inr (integer 0))
                        | (False, d) \<Rightarrow>
                            (case map_of d key of
                               None \<Rightarrow> (d, Inl KeyError)
                             | Some (value, _) \<Rightarrow>
                                 (case float_of_int seconds of
                                    Inl e \<Rightarrow> (d, Inl e)
                                  | Inr s \<Rightarrow>
                                      (AList.update key (value, Some (fl (now + s))) d,
                                       Inr (integer 1))))))))
          else if cmd = ''TTL'' then
            (if length args < 2 then (data, Inr (wrong_args ''TTL''))
             else
               (let key = args ! 1 in
                case map_of data key of
                  None \<Rightarrow> (data, Inr (integer (- 2)))
                | Some (value, expires_at) \<Rightarrow>
                    (case expires_at of
                       None \<Rightarrow> (data, Inr (integer (- 1)))
                     | Some t \<Rightarrow>
                         (case int_of_float (fl (t - now)) of
                            Inl e \<Rightarrow> (data, Inl e)
                          | Inr remaining \<Rightarrow>
                              if remaining < 0 then (AList.delete key data, Inr (integer (- 2)))
                              else (data, Inr (integer remaining))))))
          else if cmd = ''DEL'' then
            (if length args < 2 then (data, Inr (wrong_args ''DEL''))
             else
               (case del_sum data (tl args) of
                  (d, _) \<Rightarrow>
                    (case del_loop d (tl args) 0 of
                       (d', count) \<Rightarrow> (d', Inr (integer (int count))))))
          else if cmd = ''KEYS'' then
            (case keys_scan now (map fst data) data [] of
               (d, Inl e) \<Rightarrow> (d, Inl e)
             | (d, Inr keys) \<Rightarrow> (d, Inr (keys_reply keys)))
          else (data, Inr (error (''ERR unknown command '' @ apos @ cmd @ apos))))"

section \<open>Persistence\<close>

text \<open>
  The snapshot file holds a JSON object from keys to \<open>{"value", "expires_at"}\<close>
  records; \<open>json.dump\<close> and \<open>json.load\<close> are inverse to each other on such objects, so
  the file's content is the object itself, and \<open>None\<close> is the file not being there.
\<close>

type_synonym snapshot = "(pystr \<times> entry) list"

fun save_loop :: "real \<Rightarrow> (pystr \<times> entry) list \<Rightarrow> snapshot \<Rightarrow> snapshot" where
  "save_loop now [] to_save = to_save"
| "save_loop now ((key, (value, expires_at)) # items) to_save =
     (if lapsed now expires_at then save_loop now items to_save
      else save_loop now items (AList.update key (value, expires_at) to_save))"

text \<open>\<open>save_data\<close>: the object written to the file.\<close>

definition save_data :: "real \<Rightarrow> store \<Rightarrow> snapshot" where
  "save_data now data = save_loop now data []"

fun load_loop :: "real \<Rightarrow> (pystr \<times> entry) list \<Rightarrow> store \<Rightarrow> store" where
  "load_loop now [] data = data"
| "load_loop now ((key, (value, expires_at)) # items) data =
     (if lapsed now expires_at then load_loop now items data
      else load_loop now items (AList.update key (value, expires_at) data))"

definition load_data :: "real \<Rightarrow> snapshot option \<Rightarrow> store \<Rightarrow> store" where
  "load_data now file data =
     (case file of
        None \<Rightarrow> data
      | Some saved \<Rightarrow> load_loop now saved data)"

section \<open>Slices, decimal text and searching\<close>

declare str_nat.simps [simp del]

lemma adjust_nat [simp]: "adjust n (int i) = min n i"
  by (simp add: adjust_def)

lemma adjust_nonneg: "0 \<le> i \<Longrightarrow> adjust n i = min n (nat i)"
  by (simp add: adjust_def)

lemma slice_nonneg:
  assumes "0 \<le> i" "i \<le> j"
  shows "slice xs i j = take (nat j - nat i) (drop (nat i) xs)"
proof (cases "nat i \<le> length xs")
  case True
  with assms show ?thesis
    by (simp add: slice_def adjust_nonneg Let_def min_def)
next
  case False
  with assms show ?thesis
    by (simp add: slice_def adjust_nonneg Let_def min_def)
qed

lemma slice_mid:
  "slice (xs @ ys @ zs) (int (length xs)) (int (length xs + length ys)) = ys"
  by (simp add: slice_nonneg)

lemma slice_from_append: "slice_from (xs @ ys) (int (length xs)) = ys"
  by (simp add: slice_from_def)

subsection \<open>Decimal text\<close>

lemma is_digit_digit_char: "d < 10 \<Longrightarrow> is_digit (digit_char d)"
  by (simp add: is_digit_def digit_char_def)

lemma digit_val_digit_char: "d < 10 \<Longrightarrow> digit_val (digit_char d) = d"
  by (simp add: digit_val_def digit_char_def)

lemma str_nat_digits: "c \<in> set (str_nat n) \<Longrightarrow> is_digit c"
proof (induction n rule: str_nat.induct)
  case (1 n)
  then show ?case
    by (cases "n < 10") (auto simp: str_nat.simps [of n] is_digit_digit_char)
qed

lemma str_nat_nonempty: "str_nat n \<noteq> []"
  by (cases "n < 10") (simp_all add: str_nat.simps [of n])

lemma digits_value_fold:
  "\<forall>c \<in> set ds. is_digit c \<Longrightarrow>
     digits_value acc ds = Some (fold (\<lambda>c a. 10 * a + digit_val c) ds acc)"
  by (induction ds arbitrary: acc) simp_all

lemma fold_str_nat: "fold (\<lambda>c a. 10 * a + digit_val c) (str_nat n) 0 = n"
proof (induction n rule: str_nat.induct)
  case (1 n)
  show ?case
  proof (cases "n < 10")
    case True
    then show ?thesis
      by (simp add: str_nat.simps [of n] digit_val_digit_char)
  next
    case False
    with 1 show ?thesis
      by (simp add: str_nat.simps [of n] digit_val_digit_char)
  qed
qed

lemma parse_digits_str_nat: "parse_digits (str_nat n) = Some n"
proof -
  obtain c cs where cs: "str_nat n = c # cs"
    using str_nat_nonempty [of n] by (cases "str_nat n") auto
  have dig: "\<forall>c \<in> set (str_nat n). is_digit c"
    using str_nat_digits by blast
  then have "is_digit c"
    by (simp add: cs)
  then have "parse_digits (str_nat n) = digits_value 0 (str_nat n)"
    by (simp add: parse_digits_def cs)
  then show ?thesis
    by (simp add: digits_value_fold [OF dig] fold_str_nat)
qed

lemma digit_not_space: "is_digit c \<Longrightarrow> \<not> bytes_space c"
  by (auto simp: is_digit_def bytes_space_def)

lemma digit_not_sign: "is_digit c \<Longrightarrow> c \<noteq> CHR ''-'' \<and> c \<noteq> CHR ''+''"
  by (auto simp: is_digit_def)

lemma digit_not_CR: "is_digit c \<Longrightarrow> c \<noteq> CR"
  by (auto simp: is_digit_def CR_def)

lemma strip_id:
  assumes "xs \<noteq> []" "\<not> ws (hd xs)" "\<not> ws (last xs)"
  shows "strip ws xs = xs"
proof -
  have "dropWhile ws xs = xs"
    using assms by (cases xs) auto
  moreover have "dropWhile ws (rev xs) = rev xs"
    using assms by (cases "rev xs") (auto simp: hd_rev)
  ultimately show ?thesis
    by (simp add: strip_def)
qed

lemma int_of_bytes_str_nat: "int_of_bytes (str_nat n) = Some (int n)"
proof -
  obtain c cs where cs: "str_nat n = c # cs"
    using str_nat_nonempty [of n] by (cases "str_nat n") auto
  have dig: "\<And>c. c \<in> set (str_nat n) \<Longrightarrow> is_digit c"
    using str_nat_digits by blast
  have "hd (str_nat n) \<in> set (str_nat n)" "last (str_nat n) \<in> set (str_nat n)"
    using str_nat_nonempty by simp_all
  then have "strip bytes_space (str_nat n) = str_nat n"
    using dig digit_not_space str_nat_nonempty by (intro strip_id) auto
  moreover have "c \<noteq> CHR ''-''" "c \<noteq> CHR ''+''"
    using dig [of c] digit_not_sign [of c] by (simp_all add: cs)
  ultimately show ?thesis
    using parse_digits_str_nat [of n] by (simp add: int_of_bytes_def py_int_def cs)
qed

lemma CR_notin_str_nat: "CR \<notin> set (str_nat n)"
  using str_nat_digits digit_not_CR by blast

subsection \<open>Searching\<close>

lemma find_from_skip:
  "CR \<notin> set ds \<Longrightarrow> find_from (ds @ CR # LF # rest) i = int (i + length ds)"
proof (induction ds arbitrary: i)
  case Nil
  then show ?case by simp
next
  case (Cons d ds)
  then show ?case
    by (cases ds) auto
qed

lemma find_from_prefix_none:
  "CR \<notin> set ds \<Longrightarrow> prefix q (ds @ [CR]) \<Longrightarrow> find_from q i = - 1"
proof (induction ds arbitrary: q i)
  case Nil
  then show ?case
    by (cases q) (auto simp: prefix_Cons)
next
  case (Cons d ds)
  show ?case
  proof (cases q)
    case Nil
    then show ?thesis by simp
  next
    case (Cons a q')
    with Cons.prems have a: "a = d" and p: "prefix q' (ds @ [CR])" and d: "d \<noteq> CR" and n: "CR \<notin> set ds"
      by auto
    show ?thesis
    proof (cases q')
      case Nil
      then show ?thesis by (simp add: Cons)
    next
      case (Cons b xs)
      then show ?thesis
        using Cons.IH [OF n p, of "Suc i"] a d by (simp add: \<open>q = a # q'\<close>)
    qed
  qed
qed

lemma find_crlf_skip:
  "CR \<notin> set ds \<Longrightarrow>
     find_crlf (pre @ ds @ CRLF @ rest) (int (length pre)) = int (length pre + length ds)"
  by (simp add: find_crlf_def CRLF_def find_from_skip)

section \<open>Rounding to doubles\<close>

lemma round_half_even_int [simp]: "round_half_even (of_int n) = n"
  by (simp add: round_half_even_def)

lemma round_half_even_le: "x \<le> of_int n \<Longrightarrow> round_half_even x \<le> n"
proof -
  assume x: "x \<le> of_int n"
  show ?thesis
  proof (cases "x = of_int \<lfloor>x\<rfloor>")
    case True
    then have "round_half_even x = \<lfloor>x\<rfloor>"
      by (simp add: round_half_even_def)
    with x show ?thesis
      by (simp add: floor_le_iff)
  next
    case False
    then have "of_int \<lfloor>x\<rfloor> < x"
      by (metis of_int_floor_le order_le_less)
    with x have "\<lfloor>x\<rfloor> < n"
      by linarith
    moreover have "round_half_even x \<le> \<lfloor>x\<rfloor> + 1"
      by (simp add: round_half_even_def Let_def)
    ultimately show ?thesis by linarith
  qed
qed

lemma round_half_even_nonneg: "0 \<le> x \<Longrightarrow> 0 \<le> round_half_even x"
  by (auto simp add: round_half_even_def Let_def)

lemma fl_zero [simp]: "fl 0 = 0"
  by (simp add: fl_def)

lemma fl_nonneg: "0 \<le> x \<Longrightarrow> 0 \<le> fl x"
  by (auto simp add: fl_def Let_def intro!: mult_nonneg_nonneg round_half_even_nonneg)

lemma fl_exact:
  assumes m: "\<bar>m\<bar> < 2 ^ 53" and k: "- 1074 \<le> k"
  shows "fl (of_int m * 2 powr of_int k) = of_int m * 2 powr of_int k"
proof (cases "m = 0")
  case True
  then show ?thesis by simp
next
  case False
  define x :: real where "x = of_int m * 2 powr of_int k"
  define e where "e = \<lfloor>log 2 \<bar>x\<bar>\<rfloor>"
  define q where "q = max e (- 1022) - 52"
  have xne: "x \<noteq> 0"
    using False by (simp add: x_def)
  have absx: "\<bar>x\<bar> = of_int \<bar>m\<bar> * 2 powr of_int k"
    by (simp add: x_def abs_mult)
  have "of_int \<bar>m\<bar> < (2 :: real) ^ 53"
    using m by (metis of_int_less_iff of_int_numeral of_int_power)
  then have "\<bar>x\<bar> < 2 ^ 53 * 2 powr of_int k"
    by (simp add: absx)
  also have "\<dots> = 2 powr (53 + of_int k)"
    by (simp add: powr_add powr_numeral)
  finally have "log 2 \<bar>x\<bar> < 53 + of_int k"
    using xne by (subst log_less_iff) simp_all
  then have "e < 53 + k"
    unfolding e_def by linarith
  with k have qk: "q \<le> k"
    by (simp add: q_def)
  define n where "n = nat (k - q)"
  have kq: "of_int k = of_int q + real n"
    using qk by (simp add: n_def)
  have "x / 2 powr of_int q = of_int m * 2 ^ n"
    by (simp add: x_def kq powr_add powr_realpow)
  also have "\<dots> = of_int (m * 2 ^ n)"
    by simp
  finally have y: "x / 2 powr of_int q = of_int (m * 2 ^ n)" .
  have "fl x = of_int (round_half_even (x / 2 powr of_int q)) * 2 powr of_int q"
    unfolding fl_def Let_def q_def e_def using xne by (simp only: if_False)
  then have "fl x = of_int (m * 2 ^ n) * 2 powr of_int q"
    by (simp only: y round_half_even_int)
  also have "\<dots> = x"
    by (simp add: x_def kq powr_add powr_realpow)
  finally show ?thesis
    by (simp add: x_def)
qed

lemma fl_int: "\<bar>m\<bar> < 2 ^ 53 \<Longrightarrow> fl (of_int m) = of_int m"
  using fl_exact [of m 0] by simp

lemma fl_half: "\<bar>m\<bar> < 2 ^ 53 \<Longrightarrow> fl (of_int m / 2) = of_int m / 2"
  using fl_exact [of m "- 1"] by (simp add: powr_minus field_simps)

lemma fl_le_minus_one:
  assumes "x \<le> - 1"
  shows "fl x \<le> - 1"
proof -
  define e where "e = \<lfloor>log 2 \<bar>x\<bar>\<rfloor>"
  have xne: "x \<noteq> 0" and ax: "1 \<le> \<bar>x\<bar>"
    using assms by auto
  have "0 \<le> log 2 \<bar>x\<bar>"
    using ax by simp
  then have e0: "0 \<le> e"
    by (simp add: e_def)
  have "of_int e \<le> log 2 \<bar>x\<bar>"
    by (simp add: e_def)
  then have pe: "2 powr of_int e \<le> \<bar>x\<bar>"
    using xne by (subst (asm) le_log_iff) simp_all
  define q where "q = e - 52"
  have qd: "max e (- 1022) - 52 = q"
    using e0 by (simp add: q_def)
  have "(2 :: real) powr of_int q = 2 powr (of_int e - 52)"
    by (simp add: q_def)
  also have "\<dots> = 2 powr of_int e / 2 powr 52"
    by (rule powr_diff)
  finally have pq: "(2 :: real) powr of_int q = 2 powr of_int e / 2 ^ 52"
    by (simp only: powr_numeral)
  define r where "r = \<bar>x\<bar> / 2 powr of_int e"
  have r1: "1 \<le> r"
    using pe by (simp add: r_def)
  have "x / 2 powr of_int q = - (r * 2 ^ 52)"
    using assms by (simp add: pq r_def)
  moreover have "1 * (2 :: real) ^ 52 \<le> r * 2 ^ 52"
    using r1 by (intro mult_right_mono) simp_all
  ultimately have "x / 2 powr of_int q \<le> - (2 ^ 52)"
    by linarith
  then have "x / 2 powr of_int q \<le> of_int (- (2 ^ 52))"
    by simp
  then have r: "round_half_even (x / 2 powr of_int q) \<le> - (2 ^ 52)"
    by (rule round_half_even_le)
  have "fl x = of_int (round_half_even (x / 2 powr of_int q)) * 2 powr of_int q"
    unfolding fl_def Let_def qd [symmetric] e_def using xne by (simp only: if_False)
  also have "\<dots> \<le> of_int (- (2 ^ 52)) * 2 powr of_int q"
    using r by (intro mult_right_mono) (simp_all only: of_int_le_iff powr_ge_zero)
  also have "\<dots> = - (2 powr of_int e)"
    by (simp add: pq)
  also have "\<dots> \<le> - 1"
    using e0 by (simp add: ge_one_powr_ge_zero)
  finally show ?thesis .
qed

section \<open>The dispatcher: TTL, SET, EXPIRE, KEYS\<close>

lemma py_trunc_neg: "py_trunc x < 0 \<longleftrightarrow> x \<le> - 1"
  unfolding py_trunc_def by (auto simp: ceiling_less_iff floor_less_iff)

lemma py_trunc_nonneg: "0 \<le> x \<Longrightarrow> py_trunc x = \<lfloor>x\<rfloor>"
  unfolding py_trunc_def by simp

lemma py_trunc_small: "- 1 < x \<Longrightarrow> x < 1 \<Longrightarrow> py_trunc x = 0"
  unfolding py_trunc_def by (auto intro: ceiling_unique floor_unique)

lemma upper_ttl: "upper ''ttl'' = ''TTL''"
  by code_simp

lemma upper_set: "upper ''Set'' = ''SET''"
  by code_simp

lemma upper_fixed:
  "upper ''TTL'' = ''TTL''" "upper ''GET'' = ''GET''" "upper ''SET'' = ''SET''"
  "upper ''KEYS'' = ''KEYS''" "upper ''EXPIRE'' = ''EXPIRE''"
  by code_simp+

text \<open>The differences met below are doubles, so rounding leaves them as they are.\<close>

lemma fl_values:
  "fl (- 2) = - 2" "fl (5 / 2) = 5 / 2" "fl (- (1 / 2)) = - (1 / 2)" "fl (- 100) = - 100"
  using fl_int [of "- 2"] fl_half [of 5] fl_half [of "- 1"] fl_int [of "- 100"] by simp_all

text \<open>
  Claim C2, as stated, at the instant of expiry: a key whose expiry equals the current
  time has zero seconds left, and \<open>TTL\<close> answers 0 and keeps the entry; it does not
  delete it and answer -2. (\<open>is_expired\<close> agrees: its comparison is strict.)
\<close>

theorem ttl_at_expiry_instant:
  "handle_command 100 [(''k'', (''v'', Some 100))] [''TTL'', ''k'']
     = ([(''k'', (''v'', Some 100))], Inr (integer 0))
   \<and> handle_command 100 [(''k'', (''v'', Some 100))] [''TTL'', ''k'']
     \<noteq> (AList.delete ''k'' [(''k'', (''v'', Some 100))], Inr (integer (- 2)))"
  by (simp add: handle_command_def upper_fixed int_of_float_def py_trunc_def AList.delete_eq)

text \<open>
  Claim C2, amended: \<open>TTL k\<close> answers -2 when \<open>k\<close> is missing and -1 when \<open>k\<close> has no
  expiry. When an expiry is set, the float subtraction gives the remaining time as the
  exact difference rounded to the nearest double, and, that double being finite: when
  the expiry lies a whole second or more in the past the entry is deleted and the
  answer is -2; when the expiry is now or in the future the answer is that double
  rounded down and the store is unchanged.
\<close>

theorem ttl_reply:
  assumes "upper a0 = ''TTL''"
  shows "(map_of data k = None \<longrightarrow>
            handle_command now data (a0 # k # rest) = (data, Inr (integer (- 2))))
       \<and> (map_of data k = Some (v, None) \<longrightarrow>
            handle_command now data (a0 # k # rest) = (data, Inr (integer (- 1))))
       \<and> (map_of data k = Some (v, Some t) \<and> t - now \<le> - 1 \<and> \<bar>fl (t - now)\<bar> < 2 ^ 1024 \<longrightarrow>
            handle_command now data (a0 # k # rest) = (AList.delete k data, Inr (integer (- 2))))
       \<and> (map_of data k = Some (v, Some t) \<and> 0 \<le> t - now \<and> \<bar>fl (t - now)\<bar> < 2 ^ 1024 \<longrightarrow>
            handle_command now data (a0 # k # rest)
              = (data, Inr (integer \<lfloor>fl (t - now)\<rfloor>)))"
proof -
  have past: "py_trunc (fl (t - now)) < 0" if "t - now \<le> - 1"
    using fl_le_minus_one [OF that] by (simp add: py_trunc_neg)
  have missing: "map_of data k = None \<longrightarrow>
      handle_command now data (a0 # k # rest) = (data, Inr (integer (- 2)))"
    using assms by (simp add: handle_command_def)
  have unset: "map_of data k = Some (v, None) \<longrightarrow>
      handle_command now data (a0 # k # rest) = (data, Inr (integer (- 1)))"
    using assms by (simp add: handle_command_def)
  have gone: "map_of data k = Some (v, Some t) \<and> t - now \<le> - 1 \<and> \<bar>fl (t - now)\<bar> < 2 ^ 1024 \<longrightarrow>
      handle_command now data (a0 # k # rest) = (AList.delete k data, Inr (integer (- 2)))"
  proof (intro impI, elim conjE)
    assume k: "map_of data k = Some (v, Some t)" and r: "t - now \<le> - 1"
      and fin: "\<bar>fl (t - now)\<bar> < 2 ^ 1024"
    have "int_of_float (fl (t - now)) = Inr (py_trunc (fl (t - now)))"
      using fin by (simp only: int_of_float_def) simp
    then show "handle_command now data (a0 # k # rest) = (AList.delete k data, Inr (integer (- 2)))"
      using assms k past [OF r] by (simp add: handle_command_def)
  qed
  have live: "map_of data k = Some (v, Some t) \<and> 0 \<le> t - now \<and> \<bar>fl (t - now)\<bar> < 2 ^ 1024 \<longrightarrow>
      handle_command now data (a0 # k # rest) = (data, Inr (integer \<lfloor>fl (t - now)\<rfloor>))"
  proof (intro impI, elim conjE)
    assume k: "map_of data k = Some (v, Some t)" and r: "0 \<le> t - now"
      and fin: "\<bar>fl (t - now)\<bar> < 2 ^ 1024"
    have "int_of_float (fl (t - now)) = Inr (py_trunc (fl (t - now)))"
      using fin by (simp only: int_of_float_def) simp
    then show "handle_command now data (a0 # k # rest) = (data, Inr (integer \<lfloor>fl (t - now)\<rfloor>))"
      using assms k fl_nonneg [OF r] by (simp add: handle_command_def py_trunc_nonneg)
  qed
  show ?thesis
    using missing unset gone live by blast
qed

text \<open>The four cases at time 5, for the command \<open>ttl k\<close>.\<close>

theorem ttl_reply_witness:
  "upper ''ttl'' = ''TTL''
   \<and> handle_command 5 [] [''ttl'', ''k''] = ([], Inr (integer (- 2)))
   \<and> handle_command 5 [(''k'', (''v'', None))] [''ttl'', ''k'']
       = ([(''k'', (''v'', None))], Inr (integer (- 1)))
   \<and> handle_command 5 [(''k'', (''v'', Some 3))] [''ttl'', ''k''] = ([], Inr (integer (- 2)))
   \<and> handle_command 5 [(''k'', (''v'', Some (15 / 2)))] [''ttl'', ''k'']
       = ([(''k'', (''v'', Some (15 / 2)))], Inr (integer 2))"
  using ttl_reply [OF upper_ttl, where data = "[]" and k = "''k''" and now = 5 and rest = "[]"]
    ttl_reply [OF upper_ttl, where data = "[(''k'', (''v'', None))]" and k = "''k''" and v = "''v''"
      and now = 5 and rest = "[]"]
    ttl_reply [OF upper_ttl, where data = "[(''k'', (''v'', Some 3))]" and k = "''k''" and v = "''v''"
      and t = 3 and now = 5 and rest = "[]"]
    ttl_reply [OF upper_ttl, where data = "[(''k'', (''v'', Some (15 / 2)))]" and k = "''k''"
      and v = "''v''" and t = "15 / 2" and now = 5 and rest = "[]"]
  by (simp add: upper_ttl AList.delete_eq fl_values)

text \<open>
  Claim C3 (a read, a listing or a TTL query that meets an entry whose expiry has
  passed removes it before answering) fails for \<open>TTL\<close>: half a second after the expiry
  of \<open>k\<close>, \<open>TTL k\<close> answers 0, computed from the entry, and leaves it in the store, while
  \<open>GET k\<close> at the same moment removes it and answers nil.
\<close>

theorem ttl_leaves_lapsed_entry:
  "lapsed (201 / 2) (Some 100)
   \<and> handle_command (201 / 2) [(''k'', (''v'', Some 100))] [''TTL'', ''k'']
       = ([(''k'', (''v'', Some 100))], Inr (integer 0))
   \<and> handle_command (201 / 2) [(''k'', (''v'', Some 100))] [''GET'', ''k'']
       = ([], Inr (bulk_string None))"
  using py_trunc_small [of "- (1 / 2)"]
  by (simp add: handle_command_def upper_fixed int_of_float_def fl_values
      lapsed_def get_value_def is_expired_def AList.delete_eq)

lemma int_of_str_str_nat: "int_of_str (str_nat n) = Some (int n)"
  using int_of_bytes_str_nat [of n] by (simp add: int_of_str_def int_of_bytes_def)

lemma upper_expire: "upper ''EXPIRE'' = ''EXPIRE''"
  by code_simp

text \<open>
  Claim C5 (\<open>EXPIRE\<close> on a live key with an integer argument sets the expiry and answers
  1) fails for a large argument: the decimal text of \<open>10^309\<close> parses as an integer, the
  key is live, the sum with the clock raises \<open>OverflowError\<close>, and no reply is produced.
\<close>

theorem expire_overflow:
  "handle_command 100 [(''k'', (''v'', None))] [''EXPIRE'', ''k'', str_nat (10 ^ 309)]
       = ([(''k'', (''v'', None))], Inl OverflowError)"
  using int_of_str_str_nat [of "10 ^ 309"]
  by (simp add: handle_command_def upper_expire is_expired_def lapsed_def float_of_int_def)

text \<open>
  Claim C6, as stated, with four elements: \<open>SET k v x\<close> is not rejected; it stores \<open>v\<close>
  under \<open>k\<close> and answers OK.
\<close>

theorem set_extra_arguments:
  "handle_command 0 [] [''SET'', ''k'', ''v'', ''x''] = ([(''k'', (''v'', None))], Inr (simple_string ''OK''))
   \<and> handle_command 0 [] [''SET'', ''k'', ''v'', ''x''] \<noteq> ([], Inr (wrong_args ''SET''))"
  by (simp add: handle_command_def upper_fixed set_value_def)

text \<open>
  Claim C6, amended: for a command whose first element is \<open>SET\<close> in any letter case,
  when a key and a value are present (three elements or more, the further ones being
  ignored) the entry of the key becomes that value with no expiry and the reply is the
  status OK; with fewer elements the reply is the error naming \<open>SET\<close> and the store is
  unchanged.
\<close>

theorem set_reply:
  assumes "upper a0 = ''SET''"
  shows "(2 \<le> length rest \<longrightarrow>
            handle_command now data (a0 # rest)
              = (set_value (rest ! 0) (rest ! 1) None data, Inr (simple_string ''OK''))
            \<and> map_of (set_value (rest ! 0) (rest ! 1) None data)
              = (map_of data)(rest ! 0 \<mapsto> (rest ! 1, None)))
       \<and> (length rest < 2 \<longrightarrow>
            handle_command now data (a0 # rest) = (data, Inr (wrong_args ''SET'')))"
  using assms
  by (cases rest; cases "tl rest")
     (auto simp add: handle_command_def Let_def set_value_def AList.update_conv')

text \<open>\<open>Set k new\<close> over an entry that had an expiry, and \<open>Set k\<close> alone.\<close>

theorem set_reply_witness:
  "upper ''Set'' = ''SET''
   \<and> handle_command 7 [(''k'', (''old'', Some 9))] [''Set'', ''k'', ''new'']
       = ([(''k'', (''new'', None))], Inr (simple_string ''OK''))
   \<and> handle_command 7 [(''k'', (''old'', Some 9))] [''Set'', ''k'']
       = ([(''k'', (''old'', Some 9))], Inr (wrong_args ''SET''))"
  using set_reply [OF upper_set, where rest = "[''k'', ''new'']" and now = 7
      and data = "[(''k'', (''old'', Some 9))]"]
    set_reply [OF upper_set, where rest = "[''k'']" and now = 7
      and data = "[(''k'', (''old'', Some 9))]"]
  by (simp add: upper_set set_value_def)

text \<open>
  Claim C7 (entries whose expiry has passed are neither written nor loaded) fails for
  an expiry of exactly zero: at time 100 such an entry is written by \<open>save_data\<close> and
  inserted by \<open>load_data\<close>, although \<open>TTL\<close> at the same time finds it expired and
  deletes it.
\<close>

theorem snapshot_keeps_zero_expiry:
  "save_data 100 [(''k'', (''v'', Some 0))] = [(''k'', (''v'', Some 0))]
   \<and> load_data 100 (Some [(''k'', (''v'', Some 0))]) [] = [(''k'', (''v'', Some 0))]
   \<and> handle_command 100 [(''k'', (''v'', Some 0))] [''TTL'', ''k''] = ([], Inr (integer (- 2)))"
  by (simp add: save_data_def load_data_def lapsed_def handle_command_def upper_fixed
      int_of_float_def py_trunc_def fl_values AList.delete_eq)

text \<open>
  Claim C9 (the dispatcher never raises and always returns a reply) fails for \<open>KEYS\<close>
  over a store that holds an expired entry: the entry is deleted while the keys are
  being iterated, and the iteration raises \<open>RuntimeError\<close>.
\<close>

theorem keys_raises:
  "handle_command 2 [(''a'', (''v'', Some 1))] [''KEYS''] = ([], Inl RuntimeError)"
  by (simp add: handle_command_def upper_fixed is_expired_def lapsed_def AList.delete_eq)

text \<open>
  A difference that is not a double: the expiry \<open>10^17\<close> seen at the clock
  \<open>1700000000.5\<close>. Doubles are 16 apart there, and the subtraction rounds up.
\<close>

lemma fl_rounds_up: "fl (10 ^ 17 - 3400000001 / 2) = 99999998300000000"
proof -
  define x :: real where "x = 10 ^ 17 - 3400000001 / 2"
  have pos: "0 < x"
    by (simp add: x_def)
  have lo: "2 powr 56 \<le> x"
    by (simp add: x_def powr_numeral)
  have hi: "x < 2 powr 57"
    by (simp add: x_def powr_numeral)
  have "56 \<le> log 2 x"
    using lo pos by (subst le_log_iff) simp_all
  moreover have "log 2 x < 57"
    using hi pos by (subst log_less_iff) simp_all
  ultimately have e: "\<lfloor>log 2 \<bar>x\<bar>\<rfloor> = 56"
    using pos by (intro floor_unique) simp_all
  have q: "(2 :: real) powr of_int (max 56 (- 1022) - 52) = 16"
    by (simp add: powr_numeral)
  have r: "round_half_even (x / 16) = 6249999893750000"
    by (simp add: round_half_even_def x_def Let_def)
  have xne: "(x = 0) = False"
    using pos by simp
  have "fl x = of_int (round_half_even (x / 2 powr of_int (max 56 (- 1022) - 52)))
      * 2 powr of_int (max 56 (- 1022) - 52)"
    by (simp only: fl_def Let_def e xne if_False)
  also have "\<dots> = of_int (round_half_even (x / 16)) * 16"
    by (simp only: q)
  also have "\<dots> = 99999998300000000"
    by (simp add: r)
  finally show ?thesis
    by (simp only: x_def)
qed

lemma ttl_rounded_difference:
  "handle_command (3400000001 / 2) [(''k'', (''v'', Some (10 ^ 17)))] [''TTL'', ''k'']
     = ([(''k'', (''v'', Some (10 ^ 17)))], Inr (integer 99999998300000000))"
  using fl_rounds_up
  by (simp add: handle_command_def upper_fixed int_of_float_def py_trunc_def)

section \<open>Decoding complete frames\<close>

lemma decode_eq: "decode p = (if utf8_valid p then Inr p else Inl UnicodeDecodeError)"
  by (simp add: decode_def)

lemma length_bulk_frame:
  "length (bulk_frame p t) = 1 + length (str_nat (length p)) + 2 + length p + length t"
  by (simp add: bulk_frame_def CRLF_def)

lemma parse_bulk_complete:
  assumes t: "length t = 2"
  shows "parse_bulk_string_at (pre @ bulk_frame p t @ rest) (int (length pre)) =
     (if utf8_valid p then Inr (Some (p, int (length pre + length (bulk_frame p t))))
      else Inl UnicodeDecodeError)"
proof -
  define ds where "ds = str_nat (length p)"
  define buf where "buf = pre @ bulk_frame p t @ rest"
  have buf: "buf = (pre @ ''$'') @ ds @ CRLF @ (p @ t @ rest)"
    by (simp add: buf_def bulk_frame_def ds_def)
  have buf2: "buf = pre @ ''$'' @ (ds @ CRLF @ p @ t @ rest)"
    by (simp add: buf)
  have buf3: "buf = (pre @ ''$'') @ ds @ (CRLF @ p @ t @ rest)"
    by (simp add: buf)
  have buf4: "buf = (pre @ ''$'' @ ds @ CRLF) @ p @ (t @ rest)"
    by (simp add: buf)
  have len: "length buf = length pre + 1 + length ds + 2 + length p + 2 + length rest"
    by (simp add: buf CRLF_def t)
  have s1: "\<not> int (length pre) \<ge> int (length buf)"
    by (simp add: len)
  have s2: "slice buf (int (length pre)) (int (length pre) + 1) = ''$''"
    using slice_mid [of pre "''$''" "ds @ CRLF @ p @ t @ rest"] by (simp add: buf2 add.commute)
  have "find_crlf buf (int (length pre)) = find_from (''$'' @ ds @ CRLF @ p @ t @ rest) (length pre)"
    by (simp add: find_crlf_def buf2)
  also have "\<dots> = find_from ((CHR ''$'' # ds) @ CR # LF # (p @ t @ rest)) (length pre)"
    by (simp add: CRLF_def)
  also have "\<dots> = int (length pre + length (CHR ''$'' # ds))"
    using CR_notin_str_nat [of "length p"] by (intro find_from_skip) (auto simp: ds_def CR_def)
  finally have s3: "find_crlf buf (int (length pre)) = int (length pre + 1 + length ds)"
    by simp
  have s4: "slice buf (int (length pre) + 1) (int (length pre + 1 + length ds)) = ds"
    using slice_mid [of "pre @ ''$''" ds "CRLF @ p @ t @ rest"] by (simp add: buf3 add.commute)
  have s5: "int_of_bytes ds = Some (int (length p))"
    by (simp add: ds_def int_of_bytes_str_nat)
  have s6: "\<not> int (length buf) < int (length pre + 1 + length ds) + 2 + int (length p) + 2"
    by (simp add: len)
  have s7: "slice buf (int (length pre + 1 + length ds) + 2) (int (length pre + 1 + length ds) + 2 + int (length p)) = p"
    using slice_mid [of "pre @ ''$'' @ ds @ CRLF" p "t @ rest"]
    by (simp add: buf4 CRLF_def add.commute add.left_commute)
  have s8: "int (length pre + 1 + length ds) + 2 + int (length p) + 2 = int (length pre + length (bulk_frame p t))"
    by (simp add: length_bulk_frame ds_def t)
  have neq: "int (length pre + 1 + length ds) \<noteq> - 1"
    by linarith
  show ?thesis
    unfolding buf_def [symmetric] parse_bulk_string_at_def
    using s1 s2 neq s6
    by (simp only: s3 s4 s5 s7 s8 Let_def decode_eq if_False option.case simp_thms)
       (simp split: if_splits)
qed


lemma parse_elems_complete:
  assumes "\<forall>(p, t) \<in> set elems. length t = 2"
  shows "parse_elems (pre @ concat (map (\<lambda>(p, t). bulk_frame p t) elems) @ rest)
           (length elems) (int (length pre)) acc =
     (if \<forall>p \<in> set (map fst elems). utf8_valid p
      then Inr (Some (acc @ map fst elems,
                      int (length pre + length (concat (map (\<lambda>(p, t). bulk_frame p t) elems)))))
      else Inl UnicodeDecodeError)"
  using assms
proof (induction elems arbitrary: pre acc)
  case Nil
  then show ?case by simp
next
  case (Cons e elems)
  obtain p t where e: "e = (p, t)"
    by (cases e)
  from Cons.prems have t: "length t = 2" and rest: "\<forall>(p, t) \<in> set elems. length t = 2"
    by (auto simp: e)
  let ?body = "concat (map (\<lambda>(p, t). bulk_frame p t) elems)"
  have head: "parse_bulk_string_at (pre @ bulk_frame p t @ (?body @ rest)) (int (length pre)) =
     (if utf8_valid p then Inr (Some (p, int (length pre + length (bulk_frame p t))))
      else Inl UnicodeDecodeError)"
    by (rule parse_bulk_complete [OF t])
  have tail: "parse_elems ((pre @ bulk_frame p t) @ ?body @ rest) (length elems)
          (int (length (pre @ bulk_frame p t))) (acc @ [p]) =
     (if \<forall>p \<in> set (map fst elems). utf8_valid p
      then Inr (Some ((acc @ [p]) @ map fst elems,
                      int (length (pre @ bulk_frame p t) + length ?body)))
      else Inl UnicodeDecodeError)"
    by (rule Cons.IH [OF rest])
  show ?case
    using head tail by (simp add: e add.assoc)
qed

lemma array_frame_with_eq:
  "array_frame_with elems =
     (''*'' @ str_nat (length elems) @ CRLF) @ concat (map (\<lambda>(p, t). bulk_frame p t) elems)"
  by (simp add: array_frame_with_def)

lemma get_command_complete:
  assumes "\<forall>(p, t) \<in> set elems. length t = 2"
  shows "get_command (array_frame_with elems @ rest) =
     (if \<forall>p \<in> set (map fst elems). utf8_valid p
      then (Inr (Some (map fst elems)), rest)
      else (Inl UnicodeDecodeError, array_frame_with elems @ rest))"
proof -
  define ds where "ds = str_nat (length elems)"
  define body where "body = concat (map (\<lambda>(p, t). bulk_frame p t) elems)"
  define hd where "hd = ''*'' @ ds @ CRLF"
  define buf where "buf = array_frame_with elems @ rest"
  have buf: "buf = hd @ body @ rest"
    by (simp add: buf_def array_frame_with_def hd_def ds_def body_def)
  have buf1: "buf = [] @ ''*'' @ (ds @ CRLF @ body @ rest)"
    by (simp add: buf hd_def)
  have buf2: "buf = ''*'' @ ds @ (CRLF @ body @ rest)"
    by (simp add: buf hd_def)
  have lhd: "length hd = 1 + length ds + 2"
    by (simp add: hd_def CRLF_def)
  have s0: "buf \<noteq> []"
    by (simp add: buf hd_def)
  have s1: "slice buf 0 1 = ''*''"
    using slice_mid [of "[]" "''*''" "ds @ CRLF @ body @ rest"] by (simp add: buf1)
  have "find_crlf buf 0 = find_from ((CHR ''*'' # ds) @ CR # LF # (body @ rest)) 0"
    by (simp add: find_crlf_def buf hd_def CRLF_def adjust_def)
  also have "\<dots> = int (0 + length (CHR ''*'' # ds))"
    using CR_notin_str_nat [of "length elems"] by (intro find_from_skip) (auto simp: ds_def CR_def)
  finally have s2': "find_crlf buf 0 = int (1 + length ds)"
    by simp
  define endp where "endp = int (1 + length ds)"
  have s2: "find_crlf buf 0 = endp"
    by (simp add: s2' endp_def)
  have s3: "slice buf 1 endp = ds"
    using slice_mid [of "''*''" ds "CRLF @ body @ rest"] by (simp add: buf2 endp_def)
  have s4: "int_of_bytes ds = Some (int (length elems))"
    by (simp add: ds_def int_of_bytes_str_nat)
  have s5: "endp + 2 = int (length hd)"
    by (simp add: lhd endp_def)
  have s6: "parse_elems buf (length elems) (int (length hd)) [] =
     (if \<forall>p \<in> set (map fst elems). utf8_valid p
      then Inr (Some ([] @ map fst elems, int (length hd + length body)))
      else Inl UnicodeDecodeError)"
    unfolding buf body_def by (rule parse_elems_complete [OF assms])
  have s7: "slice_from buf (int (length hd + length body)) = rest"
    using slice_from_append [of "hd @ body" rest] by (simp add: buf)
  have neq: "endp \<noteq> - 1"
    by (simp add: endp_def)
  have "parse_array buf =
     (if \<forall>p \<in> set (map fst elems). utf8_valid p
      then (Inr (Some (map fst elems)), rest)
      else (Inl UnicodeDecodeError, buf))"
    unfolding parse_array_def using neq
    by (simp add: s2 s3 s4 s5 s6 s7 Let_def del: of_nat_add of_nat_Suc)
  then show ?thesis
    unfolding buf_def [symmetric] get_command_def using s0 s1 by simp
qed

section \<open>Frames that have not arrived in full\<close>

lemma strict_prefix_appendD:
  assumes "strict_prefix q (xs @ ys)"
  shows "strict_prefix q xs \<or> (\<exists>q'. q = xs @ q' \<and> strict_prefix q' ys)"
proof -
  from assms have p: "prefix q (xs @ ys)" and ne: "q \<noteq> xs @ ys"
    by (auto simp: strict_prefix_def)
  from p consider "prefix q xs" | us where "q = xs @ us" "prefix us ys"
    by (auto simp: prefix_append)
  then show ?thesis
  proof cases
    case 1
    show ?thesis
    proof (cases "q = xs")
      case True
      with ne show ?thesis
        by (intro disjI2 exI [of _ "[]"]) (auto simp: strict_prefix_def)
    next
      case False
      with 1 show ?thesis by (simp add: strict_prefix_def)
    qed
  next
    case 2
    with ne show ?thesis
      by (auto simp: strict_prefix_def)
  qed
qed

text \<open>An element that has not arrived in full is not parsed.\<close>

lemma parse_bulk_incomplete:
  assumes t: "length t = 2" and q: "strict_prefix q (bulk_frame p t)"
  shows "parse_bulk_string_at (pre @ q) (int (length pre)) = Inr None"
proof -
  define ds where "ds = str_nat (length p)"
  define A where "A = (CHR ''$'' # ds) @ [CR]"
  define B where "B = LF # p @ t"
  have frame: "bulk_frame p t = A @ B"
    by (simp add: bulk_frame_def ds_def CRLF_def A_def B_def)
  have noCR: "CR \<notin> set (CHR ''$'' # ds)"
    using CR_notin_str_nat [of "length p"] by (auto simp: ds_def CR_def)
  from q have "prefix q (A @ B)"
    by (simp add: strict_prefix_def frame)
  then consider (head) "prefix q A" | (payload) us where "q = A @ us" "prefix us B"
    using prefix_append [of q A B] by blast
  then show ?thesis
  proof cases
    case head
    show ?thesis
    proof (cases q)
      case Nil
      then show ?thesis
        by (simp add: parse_bulk_string_at_def)
    next
      case (Cons a q')
      have "find_crlf (pre @ q) (int (length pre)) = find_from q (length pre)"
        by (simp add: find_crlf_def)
      also have "\<dots> = - 1"
        by (rule find_from_prefix_none [OF noCR head [unfolded A_def]])
      finally show ?thesis
        by (simp add: parse_bulk_string_at_def Let_def)
    qed
  next
    case payload
    show ?thesis
    proof (cases us)
      case Nil
      with payload have "prefix q ((CHR ''$'' # ds) @ [CR])"
        by (simp add: A_def)
      then have "find_from q (length pre) = - 1"
        by (rule find_from_prefix_none [OF noCR])
      then have "find_crlf (pre @ q) (int (length pre)) = - 1"
        by (simp add: find_crlf_def)
      then show ?thesis
        by (simp add: parse_bulk_string_at_def Let_def)
    next
      case (Cons a q2)
      with payload have a: "a = LF" and q2: "prefix q2 (p @ t)"
        by (auto simp: B_def)
      have qeq: "q = CHR ''$'' # ds @ CRLF @ q2"
        using payload Cons a by (simp add: CRLF_def A_def)
      have "q2 \<noteq> p @ t"
        using q qeq by (auto simp: bulk_frame_def ds_def strict_prefix_def)
      with q2 have short: "length q2 < length p + 2"
        using prefix_length_less [of q2 "p @ t"] t by (auto simp: strict_prefix_def)
      define buf where "buf = pre @ q"
      have buf2: "buf = pre @ ''$'' @ (ds @ CRLF @ q2)"
        by (simp add: buf_def qeq)
      have buf3: "buf = (pre @ ''$'') @ ds @ (CRLF @ q2)"
        by (simp add: buf_def qeq)
      have len: "length buf = length pre + 1 + length ds + 2 + length q2"
        by (simp add: buf_def qeq CRLF_def)
      define endp where "endp = int (length pre + 1 + length ds)"
      have s1: "\<not> int (length pre) \<ge> int (length buf)"
        by (simp add: len)
      have s2: "slice buf (int (length pre)) (int (length pre) + 1) = ''$''"
        using slice_mid [of pre "''$''" "ds @ CRLF @ q2"] by (simp add: buf2 add.commute)
      have "find_crlf buf (int (length pre)) = find_from ((CHR ''$'' # ds) @ CR # LF # q2) (length pre)"
        by (simp add: find_crlf_def buf2 CRLF_def)
      also have "\<dots> = int (length pre + length (CHR ''$'' # ds))"
        by (rule find_from_skip [OF noCR])
      finally have s3: "find_crlf buf (int (length pre)) = endp"
        by (simp add: endp_def)
      have s4: "slice buf (int (length pre) + 1) endp = ds"
        using slice_mid [of "pre @ ''$''" ds "CRLF @ q2"] by (simp add: buf3 add.commute endp_def)
      have s5: "int_of_bytes ds = Some (int (length p))"
        by (simp add: ds_def int_of_bytes_str_nat)
      have s6: "int (length buf) < endp + 2 + int (length p) + 2"
        using short by (simp add: len endp_def)
      have neq: "endp \<noteq> - 1"
        by (simp add: endp_def)
      show ?thesis
        unfolding buf_def [symmetric] parse_bulk_string_at_def
        using s1 s2 neq s6 by (simp add: s3 s4 s5 Let_def)
    qed
  qed
qed

lemma parse_elems_incomplete:
  assumes "\<forall>p \<in> set ps. utf8_valid p"
    and "strict_prefix q (concat (map (\<lambda>p. bulk_frame p CRLF) ps))"
  shows "parse_elems (pre @ q) (length ps) (int (length pre)) acc = Inr None"
  using assms
proof (induction ps arbitrary: pre q acc)
  case Nil
  then show ?case by simp
next
  case (Cons p ps)
  have t: "length CRLF = 2"
    by (simp add: CRLF_def)
  from Cons.prems(2) have "strict_prefix q (bulk_frame p CRLF @ concat (map (\<lambda>p. bulk_frame p CRLF) ps))"
    by simp
  then consider (here) "strict_prefix q (bulk_frame p CRLF)"
    | (later) q' where "q = bulk_frame p CRLF @ q'"
        "strict_prefix q' (concat (map (\<lambda>p. bulk_frame p CRLF) ps))"
    using strict_prefix_appendD by blast
  then show ?case
  proof cases
    case here
    then show ?thesis
      by (simp add: parse_bulk_incomplete [OF t])
  next
    case later
    have valid: "utf8_valid p" "\<forall>p \<in> set ps. utf8_valid p"
      using Cons.prems(1) by simp_all
    have head: "parse_bulk_string_at (pre @ bulk_frame p CRLF @ q') (int (length pre)) =
        Inr (Some (p, int (length pre + length (bulk_frame p CRLF))))"
      using parse_bulk_complete [OF t, of pre p q'] valid by simp
    have tail: "parse_elems ((pre @ bulk_frame p CRLF) @ q') (length ps)
        (int (length (pre @ bulk_frame p CRLF))) (acc @ [p]) = Inr None"
      by (rule Cons.IH [OF valid(2) later(2)])
    show ?thesis
      using head tail by (simp add: later(1))
  qed
qed

lemma array_frame_eq:
  "array_frame ps =
     (CHR ''*'' # str_nat (length ps)) @ CR # LF # concat (map (\<lambda>p. bulk_frame p CRLF) ps)"
  by (simp add: array_frame_def array_frame_with_def comp_def CRLF_def)

lemma get_command_incomplete:
  assumes valid: "\<forall>p \<in> set ps. utf8_valid p"
    and q: "strict_prefix q (array_frame ps)"
  shows "get_command q = (Inr None, q)"
proof -
  define ds where "ds = str_nat (length ps)"
  define body where "body = concat (map (\<lambda>p. bulk_frame p CRLF) ps)"
  define A where "A = (CHR ''*'' # ds) @ [CR]"
  define B where "B = LF # body"
  have frame: "array_frame ps = A @ B"
    by (simp add: array_frame_eq A_def B_def ds_def body_def)
  have noCR: "CR \<notin> set (CHR ''*'' # ds)"
    using CR_notin_str_nat [of "length ps"] by (auto simp: ds_def CR_def)
  have header: "get_command q = (Inr None, q)" if h: "prefix q A" for q
  proof (cases q)
    case Nil
    then show ?thesis
      by (simp add: get_command_def)
  next
    case (Cons a q')
    with h have a: "a = CHR ''*''"
      by (simp add: A_def)
    have "find_crlf q 0 = find_from q 0"
      by (simp add: find_crlf_def adjust_def)
    also have "\<dots> = - 1"
      by (rule find_from_prefix_none [OF noCR h [unfolded A_def]])
    finally have "parse_array q = (Inr None, q)"
      by (simp add: parse_array_def)
    moreover have "slice q 0 1 = ''*''"
      by (simp add: Cons a slice_def adjust_def)
    ultimately show ?thesis
      by (simp add: get_command_def Cons)
  qed
  from q have "prefix q (A @ B)"
    by (simp add: strict_prefix_def frame)
  then consider (head) "prefix q A" | (elems) us where "q = A @ us" "prefix us B"
    using prefix_append [of q A B] by blast
  then show ?thesis
  proof cases
    case head
    then show ?thesis by (rule header)
  next
    case elems
    show ?thesis
    proof (cases us)
      case Nil
      with elems have "prefix q A" by simp
      then show ?thesis by (rule header)
    next
      case (Cons a q')
      with elems have a: "a = LF" and q': "prefix q' body"
        by (auto simp: B_def)
      define hd where "hd = ''*'' @ ds @ CRLF"
      have qeq: "q = hd @ q'"
        using elems Cons a by (simp add: A_def hd_def CRLF_def)
      have "q' \<noteq> body"
        using q qeq by (auto simp: frame A_def B_def hd_def CRLF_def strict_prefix_def)
      with q' have sp: "strict_prefix q' body"
        by (simp add: strict_prefix_def)
      have lhd: "length hd = 1 + length ds + 2"
        by (simp add: hd_def CRLF_def)
      have q2: "q = ''*'' @ ds @ (CRLF @ q')"
        by (simp add: qeq hd_def)
      have s0: "q \<noteq> []"
        by (simp add: qeq hd_def)
      have s1: "slice q 0 1 = ''*''"
        by (simp add: q2 slice_def adjust_def)
      define endp where "endp = int (1 + length ds)"
      have "find_crlf q 0 = find_from ((CHR ''*'' # ds) @ CR # LF # q') 0"
        by (simp add: find_crlf_def qeq hd_def CRLF_def adjust_def)
      also have "\<dots> = int (0 + length (CHR ''*'' # ds))"
        by (rule find_from_skip [OF noCR])
      finally have s2: "find_crlf q 0 = endp"
        by (simp add: endp_def)
      have s3: "slice q 1 endp = ds"
        using slice_mid [of "''*''" ds "CRLF @ q'"] by (simp add: q2 endp_def)
      have s4: "int_of_bytes ds = Some (int (length ps))"
        by (simp add: ds_def int_of_bytes_str_nat)
      have s5: "endp + 2 = int (length hd)"
        by (simp add: lhd endp_def)
      have s6: "parse_elems q (length ps) (int (length hd)) [] = Inr None"
        unfolding qeq using sp unfolding body_def by (rule parse_elems_incomplete [OF valid])
      have neq: "endp \<noteq> - 1"
        by (simp add: endp_def)
      have "parse_array q = (Inr None, q)"
        unfolding parse_array_def using neq by (simp add: s2 s3 s4 s5 s6 Let_def)
      then show ?thesis
        using s0 s1 by (simp add: get_command_def)
    qed
  qed
qed

subsection \<open>Draining\<close>

lemma drain_none: "get_command b = (Inr None, b') \<Longrightarrow> drain b = Some ([], None, b')"
  by (subst drain.simps) simp

lemma drain_empty: "drain [] = Some ([], None, [])"
  by (rule drain_none) (simp add: get_command_def)

lemma drain_frame:
  assumes "\<forall>p \<in> set ps. utf8_valid p"
  shows "drain (array_frame ps) = Some ([ps], None, [])"
proof -
  have "get_command (array_frame_with (map (\<lambda>p. (p, CRLF)) ps) @ []) = (Inr (Some ps), [])"
    using assms by (subst get_command_complete) (auto simp: CRLF_def comp_def)
  then have "get_command (array_frame ps) = (Inr (Some ps), [])"
    by (simp add: array_frame_def)
  then show ?thesis
    by (subst drain.simps) (simp add: drain_empty)
qed

lemma feed_chunks_empty: "concat chunks = [] \<Longrightarrow> feed_chunks [] chunks = Some ([], None, [])"
  by (induction chunks) (simp_all add: feed_def drain_empty)

lemma feed_chunks_frame:
  assumes valid: "\<forall>p \<in> set ps. utf8_valid p"
  shows "b @ concat chunks = array_frame ps \<Longrightarrow> strict_prefix b (array_frame ps) \<Longrightarrow>
     feed_chunks b chunks = Some ([ps], None, [])"
proof (induction chunks arbitrary: b)
  case Nil
  then show ?case by (simp add: strict_prefix_def)
next
  case (Cons c chunks)
  show ?case
  proof (cases "b @ c = array_frame ps")
    case True
    have "(b @ c) @ concat chunks = array_frame ps"
      using Cons.prems(1) by (simp only: concat.simps append_assoc)
    then have "array_frame ps @ concat chunks = array_frame ps @ []"
      by (simp only: True append_Nil2)
    then have "concat chunks = []"
      by (rule same_append_eq [THEN iffD1])
    then show ?thesis
      using True by (simp add: feed_def drain_frame [OF valid] feed_chunks_empty)
  next
    case False
    have "prefix (b @ c) (array_frame ps)"
      using Cons.prems(1) by (metis append.assoc concat.simps(2) prefixI)
    with False have sp: "strict_prefix (b @ c) (array_frame ps)"
      by (simp add: strict_prefix_def)
    have d: "drain (b @ c) = Some ([], None, b @ c)"
      by (rule drain_none) (rule get_command_incomplete [OF valid sp])
    have "feed_chunks (b @ c) chunks = Some ([ps], None, [])"
      using Cons.prems(1) sp by (intro Cons.IH) simp_all
    then show ?thesis
      by (simp add: feed_def d)
  qed
qed

section \<open>Chunked delivery of a request\<close>

lemma array_frame_nonempty: "array_frame ps \<noteq> []"
  by (simp add: array_frame_eq)

text \<open>
  Claim C1, as stated, for a well-framed request whose first element is the byte 0xFF,
  which is not text: once that element has arrived, \<open>get_command\<close> raises
  \<open>UnicodeDecodeError\<close> although the second element is incomplete, and the request
  delivered in two chunks leaves another buffer than the request delivered at once.
\<close>

theorem undecodable_element_raises:
  "strict_prefix (''*2'' @ CRLF @ ''$1'' @ CRLF @ [CHR 0xFF] @ CRLF @ ''$1'')
     (array_frame [ [CHR 0xFF], ''k''])
   \<and> get_command (''*2'' @ CRLF @ ''$1'' @ CRLF @ [CHR 0xFF] @ CRLF @ ''$1'')
       = (Inl UnicodeDecodeError, ''*2'' @ CRLF @ ''$1'' @ CRLF @ [CHR 0xFF] @ CRLF @ ''$1'')
   \<and> feed_chunks [] [''*2'' @ CRLF @ ''$1'' @ CRLF @ [CHR 0xFF] @ CRLF @ ''$1'', CRLF @ ''k'' @ CRLF]
       = Some ([], Some UnicodeDecodeError, ''*2'' @ CRLF @ ''$1'' @ CRLF @ [CHR 0xFF] @ CRLF @ ''$1'')
   \<and> feed_chunks [] [array_frame [ [CHR 0xFF], ''k'']]
       = Some ([], Some UnicodeDecodeError, array_frame [ [CHR 0xFF], ''k''])"
  by code_simp

text \<open>
  Claim C1, amended: a well-formed array-form request whose elements are valid UTF-8
  text is decoded to the same command however its bytes are cut into chunks, and to
  the command that one contiguous write gives; while the request is incomplete,
  \<open>get_command\<close> returns \<open>None\<close> and leaves the buffer as it is; once it is complete,
  exactly its bytes are consumed.
\<close>

theorem chunked_delivery:
  assumes "\<forall>p \<in> set args. utf8_valid p"
  shows "(concat chunks = array_frame args \<longrightarrow>
            feed_chunks [] chunks = feed_chunks [] [array_frame args])
       \<and> feed_chunks [] [array_frame args] = Some ([args], None, [])
       \<and> (strict_prefix q (array_frame args) \<longrightarrow> get_command q = (Inr None, q))
       \<and> get_command (array_frame args @ rest) = (Inr (Some args), rest)"
proof -
  have start: "strict_prefix [] (array_frame args)"
    using array_frame_nonempty [of args] by (simp add: strict_prefix_def)
  have all: "feed_chunks [] cs = Some ([args], None, [])" if "concat cs = array_frame args" for cs
    using that start by (intro feed_chunks_frame [OF assms]) simp_all
  have one: "feed_chunks [] [array_frame args] = Some ([args], None, [])"
    by (rule all) simp
  have "get_command (array_frame_with (map (\<lambda>p. (p, CRLF)) args) @ rest) = (Inr (Some args), rest)"
    using assms by (subst get_command_complete) (auto simp: CRLF_def comp_def)
  then have whole: "get_command (array_frame args @ rest) = (Inr (Some args), rest)"
    by (simp add: array_frame_def)
  show ?thesis
    using all one whole get_command_incomplete [OF assms] by simp
qed

text \<open>\<open>GET k\<close> delivered in three chunks, cut inside the first element.\<close>

theorem chunked_delivery_witness:
  "feed_chunks [] [''*2'' @ CRLF @ ''$3'', CRLF @ ''GE'', ''T'' @ CRLF @ ''$1'' @ CRLF @ ''k'' @ CRLF]
       = Some ([ [''GET'', ''k''] ], None, [])
   \<and> get_command (''*2'' @ CRLF @ ''$3'' @ CRLF @ ''GE'') = (Inr None, ''*2'' @ CRLF @ ''$3'' @ CRLF @ ''GE'')
   \<and> get_command (array_frame [''GET'', ''k''] @ ''PING'') = (Inr (Some [''GET'', ''k'']), ''PING'')"
proof -
  have v: "\<forall>p \<in> set [''GET'', ''k'']. utf8_valid p"
    by code_simp
  have c: "concat [''*2'' @ CRLF @ ''$3'', CRLF @ ''GE'', ''T'' @ CRLF @ ''$1'' @ CRLF @ ''k'' @ CRLF]
      = array_frame [''GET'', ''k'']"
    by code_simp
  have sp: "strict_prefix (''*2'' @ CRLF @ ''$3'' @ CRLF @ ''GE'') (array_frame [''GET'', ''k''])"
    by code_simp
  from chunked_delivery [OF v,
      of "[''*2'' @ CRLF @ ''$3'', CRLF @ ''GE'', ''T'' @ CRLF @ ''$1'' @ CRLF @ ''k'' @ CRLF]"
         "''*2'' @ CRLF @ ''$3'' @ CRLF @ ''GE''" "''PING''"]
  show ?thesis
    using v c sp by metis
qed

section \<open>Malformed prefixes\<close>

lemma stuck_get_command:
  "get_command (''*1'' @ CRLF @ ''$x'' @ CRLF @ more) = (Inr None, ''*1'' @ CRLF @ ''$x'' @ CRLF @ more)"
proof -
  have x: "int_of_bytes ''x'' = None" by code_simp
  have one: "int_of_bytes ''1'' = Some 1" by code_simp
  show ?thesis
    by (simp add: get_command_def parse_array_def parse_bulk_string_at_def slice_def find_crlf_def
        CRLF_def CR_def LF_def x one Let_def adjust_def)
qed

text \<open>A malformed count, for comparison: the leading byte is dropped.\<close>

lemma malformed_count_dropped:
  "get_command (''*x'' @ CRLF @ more) = (Inr None, ''x'' @ CRLF @ more)"
proof -
  have x: "int_of_bytes ''x'' = None" by code_simp
  show ?thesis
    by (simp add: get_command_def parse_array_def slice_def slice_from_def find_crlf_def
        CRLF_def CR_def LF_def x Let_def adjust_def)
qed

lemma stuck_feed_chunks:
  "feed_chunks (''*1'' @ CRLF @ ''$x'' @ CRLF @ more) chunks
     = Some ([], None, ''*1'' @ CRLF @ ''$x'' @ CRLF @ more @ concat chunks)"
proof (induction chunks arbitrary: more)
  case Nil
  then show ?case by simp
next
  case (Cons c chunks)
  have "drain (''*1'' @ CRLF @ ''$x'' @ CRLF @ more @ c)
      = Some ([], None, ''*1'' @ CRLF @ ''$x'' @ CRLF @ more @ c)"
    by (rule drain_none) (rule stuck_get_command)
  then show ?case
    using Cons.IH [of "more @ c"] by (simp add: feed_def)
qed

text \<open>
  Claim C4 (after a malformed length prefix the decoder discards the offending bytes
  and parsing moves on) fails for the length prefix of a bulk string: once the buffer
  starts with \<open>*1\r\n$x\r\n\<close>, no command is ever returned and nothing is ever
  discarded, whatever bytes arrive afterwards.
\<close>

theorem malformed_bulk_length_stalls:
  "feed_chunks [] ((''*1'' @ CRLF @ ''$x'' @ CRLF) # chunks)
     = Some ([], None, ''*1'' @ CRLF @ ''$x'' @ CRLF @ concat chunks)"
proof -
  have "drain (''*1'' @ CRLF @ ''$x'' @ CRLF @ []) = Some ([], None, ''*1'' @ CRLF @ ''$x'' @ CRLF @ [])"
    by (rule drain_none) (rule stuck_get_command)
  then show ?thesis
    using stuck_feed_chunks [of "[]" chunks] by (simp add: feed_def)
qed

section \<open>Terminators and round trips\<close>

text \<open>
  Claim C10: a bulk element is taken as the declared number of payload bytes, and the
  two bytes after them are skipped whatever they are; so a request whose elements are
  each followed by any two bytes gives the same result as the request with \<open>\r\n\<close>
  after each element.
\<close>

theorem loose_terminator:
  assumes "\<forall>(p, t) \<in> set elems. length t = 2"
  shows "fst (get_command (array_frame_with elems @ rest))
           = fst (get_command (array_frame (map fst elems) @ rest))
       \<and> ((\<forall>p \<in> set (map fst elems). utf8_valid p) \<longrightarrow>
            get_command (array_frame_with elems @ rest) = (Inr (Some (map fst elems)), rest))
       \<and> (length t = 2 \<and> utf8_valid p \<longrightarrow>
            parse_bulk_string_at (pre @ bulk_frame p t @ rest) (int (length pre))
              = Inr (Some (p, int (length (pre @ ''$'' @ str_nat (length p) @ CRLF) + length p + 2))))"
proof -
  have crlf: "\<forall>(p, t) \<in> set (map (\<lambda>p. (p, CRLF)) (map fst elems)). length t = 2"
    by (simp add: CRLF_def)
  have a: "get_command (array_frame_with elems @ rest) =
     (if \<forall>p \<in> set (map fst elems). utf8_valid p
      then (Inr (Some (map fst elems)), rest)
      else (Inl UnicodeDecodeError, array_frame_with elems @ rest))"
    by (rule get_command_complete [OF assms])
  have b: "get_command (array_frame (map fst elems) @ rest) =
     (if \<forall>p \<in> set (map fst elems). utf8_valid p
      then (Inr (Some (map fst elems)), rest)
      else (Inl UnicodeDecodeError, array_frame (map fst elems) @ rest))"
    using get_command_complete [OF crlf, of rest] by (simp add: array_frame_def comp_def)
  have c: "parse_bulk_string_at (pre @ bulk_frame p t @ rest) (int (length pre))
       = Inr (Some (p, int (length (pre @ ''$'' @ str_nat (length p) @ CRLF) + length p + 2)))"
    if "length t = 2" "utf8_valid p"
    using parse_bulk_complete [OF that(1), of pre p rest] that
    by (simp add: length_bulk_frame CRLF_def)
  show ?thesis
    using a b c by simp
qed

text \<open>\<open>GET k\<close> with \<open>xy\<close> after the first element and two line feeds after the second.\<close>

theorem loose_terminator_witness:
  "get_command (array_frame_with [(''GET'', ''xy''), (''k'', [LF, LF])] @ ''PING'')
       = (Inr (Some [''GET'', ''k'']), ''PING'')
   \<and> parse_bulk_string_at (''*1'' @ CRLF @ bulk_frame ''GET'' ''xy'' @ ''PING'') 4 = Inr (Some (''GET'', 13))"
proof -
  have h: "\<forall>(p, t) \<in> set [(''GET'', ''xy''), (''k'', [LF, LF])]. length t = 2"
    by simp
  have v: "\<forall>p \<in> set (map fst [(''GET'', ''xy''), (''k'', [LF, LF])]). utf8_valid p"
    by code_simp
  have l: "length ''xy'' = 2 \<and> utf8_valid ''GET''"
    by code_simp
  have n: "int (length (''*1'' @ CRLF)) = 4"
    "int (length ((''*1'' @ CRLF) @ ''$'' @ str_nat (length ''GET'') @ CRLF) + length ''GET'' + 2) = 13"
    by code_simp+
  from loose_terminator [OF h, of "''PING''" "''xy''" "''GET''" "''*1'' @ CRLF"]
  show ?thesis
    using h v l n by (simp add: append_assoc [symmetric] del: append_assoc)
qed

lemma ascii_utf8_valid: "ascii s \<Longrightarrow> utf8_valid s"
  unfolding ascii_def utf8_valid_def by (induction s) simp_all

lemma ascii_py_len: "ascii s \<Longrightarrow> py_len s = length s"
  unfolding ascii_def py_len_def by (induction s) (simp_all add: cont_def)

lemma keys_reply_ascii: "\<forall>k \<in> set keys. ascii k \<Longrightarrow> keys_reply keys = array_frame keys"
  by (simp add: keys_reply_def array_frame_def array_frame_with_def bulk_frame_def comp_def
      ascii_py_len cong: map_cong)

lemma send_ascii: "\<forall>a \<in> set args. ascii a \<Longrightarrow> send args = array_frame args"
  by (simp add: send_def array_frame_def array_frame_with_def bulk_frame_def comp_def
      ascii_py_len cong: map_cong)

text \<open>
  Claim C8, as stated, for the bulk shape: the reply encoding the value \<open>bar\<close>, fed to
  the decoder, is read as the inline command \<open>$3\<close>, with \<open>bar\r\n\<close> left in the buffer.
\<close>

theorem bulk_reply_read_inline:
  "get_command (bulk_string (Some ''bar'')) = (Inr (Some [''$3'']), ''bar'' @ CRLF)
   \<and> fst (get_command (bulk_string (Some ''bar''))) \<noteq> Inr (Some [''bar''])"
  by code_simp

text \<open>
  A key listing with a key outside ASCII: the length written is the number of code
  points, the decoder counts bytes, and decoding the cut payload raises.
\<close>

lemma keys_reply_non_ascii:
  "get_command (keys_reply [ [CHR 0xC3, CHR 0xA9] ])
     = (Inl UnicodeDecodeError, keys_reply [ [CHR 0xC3, CHR 0xA9] ])"
  by code_simp

text \<open>
  Claim C8, amended: the reply that lists keys, all of them ASCII, fed to the decoder,
  is returned by \<open>get_command\<close> as exactly that list of keys, with nothing left in the
  buffer; and the bulk reply for an ASCII value is read back by the element parser
  \<open>_parse_bulk_string_at\<close> at offset 0 as that value, ending at the end of the reply.
\<close>

theorem keys_reply_roundtrip:
  assumes "\<forall>k \<in> set keys. ascii k"
  shows "get_command (keys_reply keys) = (Inr (Some keys), [])
       \<and> (ascii v \<longrightarrow>
            parse_bulk_string_at (bulk_string (Some v)) 0
              = Inr (Some (v, int (length (bulk_string (Some v))))))"
proof -
  have valid: "\<forall>k \<in> set keys. utf8_valid k"
    using assms ascii_utf8_valid by blast
  have "get_command (array_frame_with (map (\<lambda>p. (p, CRLF)) keys) @ []) = (Inr (Some keys), [])"
    using valid by (subst get_command_complete) (auto simp: CRLF_def comp_def)
  then have keys: "get_command (keys_reply keys) = (Inr (Some keys), [])"
    by (simp add: keys_reply_ascii [OF assms] array_frame_def)
  have bulk: "parse_bulk_string_at (bulk_string (Some v)) 0
      = Inr (Some (v, int (length (bulk_string (Some v)))))" if v: "ascii v"
  proof -
    have t: "length CRLF = 2"
      by (simp add: CRLF_def)
    have e: "bulk_string (Some v) = bulk_frame v CRLF"
      by (simp add: bulk_string_def bulk_frame_def ascii_py_len [OF v])
    show ?thesis
      using parse_bulk_complete [OF t, of "[]" v "[]"] ascii_utf8_valid [OF v] by (simp add: e)
  qed
  show ?thesis
    using keys bulk by simp
qed

text \<open>The listing of the keys \<open>ab\<close>, the empty key and \<open>c d\<close>; the bulk reply for \<open>bar\<close>.\<close>

theorem keys_reply_roundtrip_witness:
  "get_command (keys_reply [''ab'', '''', ''c d'']) = (Inr (Some [''ab'', '''', ''c d'']), [])
   \<and> parse_bulk_string_at (bulk_string (Some ''bar'')) 0 = Inr (Some (''bar'', 9))"
proof -
  have a: "\<forall>k \<in> set [''ab'', '''', ''c d'']. ascii k"
    by (simp add: ascii_def)
  have b: "ascii ''bar''"
    by (simp add: ascii_def)
  have n: "int (length (bulk_string (Some ''bar''))) = 9"
    by code_simp
  from keys_reply_roundtrip [OF a, of "''bar''"]
  show ?thesis
    using a b n by simp
qed

section \<open>The remaining cases of EXPIRE, KEYS and the snapshot\<close>

text \<open>
  \<open>EXPIRE\<close> when the seconds convert to a float: a key that is missing, or that
  \<open>is_expired\<close> finds expired (and deletes), gives 0; otherwise the expiry is set to the
  float sum of the clock and the seconds, and the value kept.
\<close>

lemma expire_reply:
  assumes "upper a0 = ''EXPIRE''"
  shows "(int_of_str s = None \<longrightarrow>
            handle_command now data (a0 # k # s # rest)
              = (data, Inr (error ''ERR value is not an integer'')))
       \<and> (int_of_str s = Some secs \<and> map_of data k = None \<longrightarrow>
            handle_command now data (a0 # k # s # rest) = (data, Inr (integer 0)))
       \<and> (int_of_str s = Some secs \<and> map_of data k = Some (v, e) \<and> lapsed now e \<longrightarrow>
            handle_command now data (a0 # k # s # rest) = (AList.delete k data, Inr (integer 0)))
       \<and> (int_of_str s = Some secs \<and> map_of data k = Some (v, e) \<and> \<not> lapsed now e
            \<and> \<bar>secs\<bar> < 2 ^ 1024 - 2 ^ 970 \<longrightarrow>
            handle_command now data (a0 # k # s # rest)
              = (AList.update k (v, Some (fl (now + fl (of_int secs)))) data, Inr (integer 1)))"
  using assms
  by (simp add: handle_command_def Let_def is_expired_def float_of_int_def)

lemma keys_scan_live:
  assumes "\<forall>k \<in> set ks. \<exists>v e. map_of data k = Some (v, e) \<and> \<not> lapsed now e"
  shows "keys_scan now ks data acc = (data, Inr (acc @ ks))"
  using assms by (induction ks arbitrary: acc) (auto simp: is_expired_def)

text \<open>\<open>KEYS\<close> over a store without expired entries lists every key, in order.\<close>

lemma keys_reply_live:
  assumes "upper a0 = ''KEYS''" and "\<forall>(k, v, e) \<in> set data. \<not> lapsed now e"
  shows "handle_command now data (a0 # rest) = (data, Inr (keys_reply (map fst data)))"
proof -
  have "\<forall>k \<in> set (map fst data). \<exists>v e. map_of data k = Some (v, e) \<and> \<not> lapsed now e"
  proof
    fix k assume "k \<in> set (map fst data)"
    then obtain v e where "map_of data k = Some (v, e)"
      by (metis map_of_eq_None_iff option.exhaust set_map surj_pair)
    moreover from this have "(k, v, e) \<in> set data"
      by (rule map_of_SomeD)
    ultimately show "\<exists>v e. map_of data k = Some (v, e) \<and> \<not> lapsed now e"
      using assms(2) by auto
  qed
  then have "keys_scan now (map fst data) data [] = (data, Inr ([] @ map fst data))"
    by (rule keys_scan_live)
  then show ?thesis
    using assms(1) by (simp add: handle_command_def Let_def)
qed

lemma update_fresh: "k \<notin> fst ` set al \<Longrightarrow> AList.update k v al = al @ [(k, v)]"
  by (induction al) auto

lemma save_loop_filter:
  "distinct (map fst (acc @ items)) \<Longrightarrow>
     save_loop now items acc = acc @ filter (\<lambda>(k, v, e). \<not> lapsed now e) items"
proof (induction items arbitrary: acc)
  case Nil
  then show ?case by simp
next
  case (Cons item items)
  obtain k v e where item: "item = (k, v, e)"
    by (cases item)
  from Cons.prems have fresh: "k \<notin> fst ` set acc"
    by (auto simp: item)
  show ?case
  proof (cases "lapsed now e")
    case True
    with Cons show ?thesis by (simp add: item)
  next
    case False
    have "distinct (map fst ((acc @ [(k, v, e)]) @ items))"
      using Cons.prems by (simp add: item)
    then show ?thesis
      using Cons.IH [of "acc @ [(k, v, e)]"] False by (simp add: item update_fresh [OF fresh])
  qed
qed

lemma load_loop_filter:
  "distinct (map fst (acc @ items)) \<Longrightarrow>
     load_loop now items acc = acc @ filter (\<lambda>(k, v, e). \<not> lapsed now e) items"
proof (induction items arbitrary: acc)
  case Nil
  then show ?case by simp
next
  case (Cons item items)
  obtain k v e where item: "item = (k, v, e)"
    by (cases item)
  from Cons.prems have fresh: "k \<notin> fst ` set acc"
    by (auto simp: item)
  show ?case
  proof (cases "lapsed now e")
    case True
    with Cons show ?thesis by (simp add: item)
  next
    case False
    have "distinct (map fst ((acc @ [(k, v, e)]) @ items))"
      using Cons.prems by (simp add: item)
    then show ?thesis
      using Cons.IH [of "acc @ [(k, v, e)]"] False by (simp add: item update_fresh [OF fresh])
  qed
qed

text \<open>
  What is written and what is loaded: the entries that fail the test
  \<open>expires_at and now > expires_at\<close>, in order; without a file, nothing.
\<close>

lemma save_data_filter:
  "distinct (map fst data) \<Longrightarrow>
     save_data now data = filter (\<lambda>(k, v, e). \<not> lapsed now e) data"
  using save_loop_filter [of "[]" data now] by (simp add: save_data_def)

lemma load_data_filter:
  "distinct (map fst saved) \<Longrightarrow>
     load_data now (Some saved) [] = filter (\<lambda>(k, v, e). \<not> lapsed now e) saved"
  using load_loop_filter [of "[]" saved now] by (simp add: load_data_def)

lemma load_data_no_file: "load_data now None [] = []"
  by (simp add: load_data_def)

end
